theory Spec2Isabelle
  imports Main "HOL-Library.Sublist"
begin

section \<open>Text primitives of the host language\<close>

text \<open>
  The assembly utilities of \<^verbatim>\<open>src/utils/asm-utils.ts\<close> work on JavaScript strings.
  A text is modelled as a \<^typ>\<open>string\<close>, one \<^typ>\<open>char\<close> per code unit, for the code
  units 0 to 255. The line break is the code unit 10, written \<open>CHR 0x0A\<close>.
\<close>

definition NL :: char where
  "NL = CHR 0x0A"

text \<open>The carriage return, the code unit 13.\<close>

definition CR :: char where
  "CR = CHR 0x0D"

text \<open>
  White space as \<^verbatim>\<open>String.prototype.trim\<close> and the regular expression class
  \<^verbatim>\<open>\s\<close> see it: tab, line feed, vertical tab, form feed, carriage return, space
  and the no-break space.
\<close>

definition is_space :: "char \<Rightarrow> bool" where
  "is_space c = (c = CHR 0x09 \<or> c = CHR 0x0A \<or> c = CHR 0x0B \<or> c = CHR 0x0C
     \<or> c = CHR 0x0D \<or> c = CHR 0x20 \<or> c = CHR 0xA0)"

text \<open>The class \<^verbatim>\<open>\w\<close>: ASCII letters, digits and the underscore.\<close>

definition is_word :: "char \<Rightarrow> bool" where
  "is_word c = (let n = of_char c :: nat in
     (65 \<le> n \<and> n \<le> 90) \<or> (97 \<le> n \<and> n \<le> 122) \<or> (48 \<le> n \<and> n \<le> 57) \<or> n = 95)"

text \<open>
  The regular expression \<^verbatim>\<open>.\<close> matches every code unit but a line terminator
  (line feed and carriage return in this range).
\<close>

definition is_dot :: "char \<Rightarrow> bool" where
  "is_dot c = (c \<noteq> CHR 0x0A \<and> c \<noteq> CHR 0x0D)"

definition js_trim :: "string \<Rightarrow> string" where
  "js_trim s = rev (dropWhile is_space (rev (dropWhile is_space s)))"

text \<open>\<^verbatim>\<open>s.split(d)\<close> for a one-character separator: never an empty array.\<close>

fun js_split :: "char \<Rightarrow> string \<Rightarrow> string list" where
  "js_split d [] = [[]]"
| "js_split d (c # cs) =
     (if c = d then [] # js_split d cs
      else (case js_split d cs of [] \<Rightarrow> [[c]] | l # ls \<Rightarrow> (c # l) # ls))"

fun js_join :: "string \<Rightarrow> string list \<Rightarrow> string" where
  "js_join sep [] = []"
| "js_join sep [x] = x"
| "js_join sep (x # y # ys) = x @ sep @ js_join sep (y # ys)"

text \<open>
  \<^verbatim>\<open>xs.slice(a, b)\<close> for indices that are not negative (the only ones the source
  passes): both are clipped to the length, and the result is empty when \<open>b \<le> a\<close>.
\<close>

definition js_slice :: "'a list \<Rightarrow> nat \<Rightarrow> nat \<Rightarrow> 'a list" where
  "js_slice xs a b = take (b - a) (drop a xs)"

definition js_startsWith :: "string \<Rightarrow> string \<Rightarrow> bool" where
  "js_startsWith s p = prefix p s"

fun js_includes :: "string \<Rightarrow> string \<Rightarrow> bool" where
  "js_includes [] p = (p = [])"
| "js_includes (c # cs) p = (prefix p (c # cs) \<or> js_includes cs p)"

section \<open>extractAssemblyFunction: the boundaries of one function\<close>

text \<open>
  The innermost loop (over \<open>k\<close>) of the backward search. It tests \<open>prevLine\<close>, the
  line of the return instruction, where it sets \<open>functionEnd\<close>, and \<open>nextLine\<close> where
  it breaks. The result is \<open>functionEnd\<close> after the loop.
\<close>

function scan_after_return :: "string list \<Rightarrow> string \<Rightarrow> int \<Rightarrow> int \<Rightarrow> int \<Rightarrow> int" where
  "scan_after_return lines prevLine i k functionEnd =
     (if k < i then
        (let nextLine = js_trim (lines ! nat k) in
         if js_startsWith prevLine ''.size'' \<or> prevLine = ''.align 3''
         then scan_after_return lines prevLine i (k + 1) k
         else if nextLine \<noteq> '''' \<and> \<not> js_startsWith nextLine ''.align''
         then functionEnd
         else scan_after_return lines prevLine i (k + 1) functionEnd)
      else functionEnd)"
  by pat_completeness auto
termination
  by (relation "measure (\<lambda>(lines, prevLine, i, k, functionEnd). nat (i - k))") auto

text \<open>
  The backward loop (over \<open>j\<close>, from \<open>i - 1\<close> down to \<open>functionStart\<close>). The result
  is \<open>functionEnd\<close> after the loop, \<open>-1\<close> when no line set it.
\<close>

function scan_backward :: "string list \<Rightarrow> int \<Rightarrow> int \<Rightarrow> int \<Rightarrow> int" where
  "scan_backward lines functionStart i j =
     (if j \<ge> functionStart then
        (let prevLine = js_trim (lines ! nat j) in
         if js_startsWith prevLine ''.size'' \<or> prevLine = ''.align 3'' then j
         else if js_startsWith prevLine ''jr '' then
           (let functionEnd = scan_after_return lines prevLine i (j + 1) (- 1) in
            if functionEnd = - 1 then j else functionEnd)
         else scan_backward lines functionStart i (j - 1))
      else - 1)"
  by pat_completeness auto
termination
  by (relation "measure (\<lambda>(lines, functionStart, i, j). nat (j - functionStart + 1))") auto

text \<open>
  The main loop (over \<open>i\<close>), with the loop's variables as arguments. The result is
  the pair \<open>(functionStart, functionEnd)\<close> when the loop ends or breaks.
\<close>

function scan_lines :: "string list \<Rightarrow> string \<Rightarrow> nat \<Rightarrow> int \<Rightarrow> bool \<Rightarrow> int \<times> int" where
  "scan_lines lines functionName i functionStart inFunction =
     (if i < length lines then
        (let line = js_trim (lines ! i) in
         if \<not> inFunction then
           if js_includes line (''glabel '' @ functionName)
           then scan_lines lines functionName (i + 1) (int i) True
           else if js_startsWith line (functionName @ '':'') \<and> functionStart = - 1
           then scan_lines lines functionName (i + 1) (int i) True
           else scan_lines lines functionName (i + 1) functionStart inFunction
         else
           if js_includes line (''.size '' @ functionName) then (functionStart, int i)
           else if js_includes line ''glabel'' then
             (let functionEnd = scan_backward lines functionStart (int i) (int i - 1) in
              (functionStart, if functionEnd = - 1 then int i - 1 else functionEnd))
           else scan_lines lines functionName (i + 1) functionStart inFunction)
      else (functionStart, - 1))"
  by pat_completeness auto
termination
  by (relation "measure (\<lambda>(lines, functionName, i, functionStart, inFunction). length lines - i)") auto

text \<open>
  The line range the function resolves, before it is cut out of the text:
  \<open>None\<close> where the source returns \<^verbatim>\<open>null\<close>.
\<close>

definition resolveBoundary :: "string list \<Rightarrow> string \<Rightarrow> (int \<times> int) option" where
  "resolveBoundary lines functionName =
     (case scan_lines lines functionName 0 (- 1) False of
        (functionStart, functionEnd) \<Rightarrow>
          if functionStart \<noteq> - 1 \<and> functionEnd \<noteq> - 1 \<and> functionEnd \<ge> functionStart
          then Some (functionStart, functionEnd)
          else None)"

definition extractAssemblyFunction :: "string \<Rightarrow> string \<Rightarrow> string option" where
  "extractAssemblyFunction assemblyContent functionName =
     (let lines = js_split NL assemblyContent in
      case resolveBoundary lines functionName of
        Some (functionStart, functionEnd) \<Rightarrow>
          Some (js_join [NL] (js_slice lines (nat functionStart) (nat (functionEnd + 1))))
      | None \<Rightarrow> None)"

text \<open>The tests the loops make on a line, named for the statements below.\<close>

definition isStartLine :: "string \<Rightarrow> string \<Rightarrow> bool" where
  "isStartLine functionName l = js_includes (js_trim l) (''glabel '' @ functionName)"

definition isLabelLine :: "string \<Rightarrow> string \<Rightarrow> bool" where
  "isLabelLine functionName l = js_startsWith (js_trim l) (functionName @ '':'')"

definition isSizeLine :: "string \<Rightarrow> string \<Rightarrow> bool" where
  "isSizeLine functionName l = js_includes (js_trim l) (''.size '' @ functionName)"

definition hasGlabel :: "string \<Rightarrow> bool" where
  "hasGlabel l = js_includes (js_trim l) ''glabel''"

definition isTerminatorLine :: "string \<Rightarrow> bool" where
  "isTerminatorLine l = (js_startsWith (js_trim l) ''.size'' \<or> js_trim l = ''.align 3'')"

definition isReturnLine :: "string \<Rightarrow> bool" where
  "isReturnLine l = js_startsWith (js_trim l) ''jr ''"

text \<open>
  \<open>startsAt lines functionName s\<close>: line \<open>s\<close> is the first line of the buffer that
  passes one of the two start tests of the main loop.
\<close>

definition startsAt :: "string list \<Rightarrow> string \<Rightarrow> nat \<Rightarrow> bool" where
  "startsAt lines functionName s =
     (s < length lines
      \<and> (isStartLine functionName (lines ! s) \<or> isLabelLine functionName (lines ! s))
      \<and> list_all (\<lambda>l. \<not> isStartLine functionName l \<and> \<not> isLabelLine functionName l)
            (take s lines))"

text \<open>
  \<open>openUntil lines functionName s i\<close>: no line strictly between \<open>s\<close> and \<open>i\<close>
  passes one of the two end tests of the main loop.
\<close>

definition openUntil :: "string list \<Rightarrow> string \<Rightarrow> nat \<Rightarrow> nat \<Rightarrow> bool" where
  "openUntil lines functionName s i =
     list_all (\<lambda>l. \<not> isSizeLine functionName l \<and> \<not> hasGlabel l) (js_slice lines (s + 1) i)"

section \<open>Regular expression matches\<close>

text \<open>
  \<^verbatim>\<open>s.match(re)\<close> without the global flag tries the expression at every position
  from the left and returns the first match; \<open>first_match m\<close> does so for an
  expression whose match at the start of a text is \<open>m\<close>. The result is the first
  capture group, \<open>None\<close> for \<^verbatim>\<open>null\<close>.
\<close>

fun first_match :: "(string \<Rightarrow> string option) \<Rightarrow> string \<Rightarrow> string option" where
  "first_match m [] = m []"
| "first_match m (c # cs) = (case m (c # cs) of Some w \<Rightarrow> Some w | None \<Rightarrow> first_match m cs)"

definition strip_prefix :: "string \<Rightarrow> string \<Rightarrow> string option" where
  "strip_prefix p s = (if prefix p s then Some (drop (length p) s) else None)"

text \<open>\<^verbatim>\<open>(\w+)\<close> at the start of a text: the longest run of word characters, not empty.\<close>

definition word_at :: "string \<Rightarrow> string option" where
  "word_at s = (let w = takeWhile is_word s in if w = [] then None else Some w)"

text \<open>\<^verbatim>\<open>\s+(\w+)\<close> at the start of a text.\<close>

definition spaces_word_at :: "string \<Rightarrow> string option" where
  "spaces_word_at s = (if s \<noteq> [] \<and> is_space (hd s) then word_at (dropWhile is_space s) else None)"

text \<open>\<^verbatim>\<open>/glabel\s+(\w+)/\<close>\<close>

definition at_glabel :: "string \<Rightarrow> string option" where
  "at_glabel s = (case strip_prefix ''glabel'' s of None \<Rightarrow> None | Some r \<Rightarrow> spaces_word_at r)"

definition match_glabel :: "string \<Rightarrow> string option" where
  "match_glabel line = first_match at_glabel line"

text \<open>\<^verbatim>\<open>/.size\s+(\w+)/\<close>: the dot is not escaped.\<close>

definition at_size :: "string \<Rightarrow> string option" where
  "at_size s =
     (case s of [] \<Rightarrow> None
      | c # r \<Rightarrow> if is_dot c
          then (case strip_prefix ''size'' r of None \<Rightarrow> None | Some r' \<Rightarrow> spaces_word_at r')
          else None)"

definition match_size :: "string \<Rightarrow> string option" where
  "match_size line = first_match at_size line"

text \<open>\<^verbatim>\<open>/jal\s+(\w+)/\<close>\<close>

definition at_jal :: "string \<Rightarrow> string option" where
  "at_jal s = (case strip_prefix ''jal'' s of None \<Rightarrow> None | Some r \<Rightarrow> spaces_word_at r)"

definition match_jal :: "string \<Rightarrow> string option" where
  "match_jal line = first_match at_jal line"

text \<open>\<^verbatim>\<open>/@\s*=(\w+)/\<close>\<close>

definition at_ref :: "string \<Rightarrow> string option" where
  "at_ref s =
     (case strip_prefix ''@'' s of None \<Rightarrow> None
      | Some r \<Rightarrow> (case strip_prefix ''='' (dropWhile is_space r) of None \<Rightarrow> None
          | Some r' \<Rightarrow> word_at r'))"

definition match_ref :: "string \<Rightarrow> string option" where
  "match_ref line = first_match at_ref line"

text \<open>
  \<^verbatim>\<open>.*=(\w+)\<close> at the start of a text \<open>d\<close> without line terminators: the star is
  greedy, so the capture starts after the last \<^verbatim>\<open>=\<close> that a word character follows.
\<close>

fun greedy_eq_word :: "string \<Rightarrow> string option" where
  "greedy_eq_word [] = None"
| "greedy_eq_word (c # cs) =
     (case greedy_eq_word cs of Some w \<Rightarrow> Some w
      | None \<Rightarrow> if c = CHR ''='' then word_at cs else None)"

definition after_keyword :: "string \<Rightarrow> string \<Rightarrow> string option" where
  "after_keyword kw s =
     (case strip_prefix kw s of None \<Rightarrow> None | Some r \<Rightarrow> greedy_eq_word (takeWhile is_dot r))"

text \<open>\<^verbatim>\<open>/(?:la|add|move).*=(\w+)/\<close>: the alternatives in their order.\<close>

definition at_direct :: "string \<Rightarrow> string option" where
  "at_direct s =
     (case after_keyword ''la'' s of Some w \<Rightarrow> Some w
      | None \<Rightarrow> (case after_keyword ''add'' s of Some w \<Rightarrow> Some w
          | None \<Rightarrow> after_keyword ''move'' s))"

definition match_direct :: "string \<Rightarrow> string option" where
  "match_direct line = first_match at_direct line"

section \<open>extractFunctionCallsFromAssembly\<close>

text \<open>
  The \<^verbatim>\<open>Set\<close> of names is a list without repetition in insertion order, which is
  the order \<^verbatim>\<open>Array.from\<close> returns.
\<close>

definition set_add :: "string list \<Rightarrow> string option \<Rightarrow> string list" where
  "set_add functionCalls m =
     (case m of None \<Rightarrow> functionCalls
      | Some w \<Rightarrow> if w \<in> set functionCalls then functionCalls else functionCalls @ [w])"

fun calls_loop :: "string list \<Rightarrow> string list \<Rightarrow> string list" where
  "calls_loop [] functionCalls = functionCalls"
| "calls_loop (line # lines) functionCalls =
     (let trimmed = js_trim line;
          functionCalls1 = set_add functionCalls (match_jal trimmed);
          functionCalls2 = set_add functionCalls1 (match_ref trimmed);
          functionCalls3 = set_add functionCalls2 (match_direct trimmed)
      in calls_loop lines functionCalls3)"

definition extractFunctionCallsFromAssembly :: "string \<Rightarrow> string list" where
  "extractFunctionCallsFromAssembly assembly = calls_loop (js_split NL assembly) []"

section \<open>listAssemblyFunctions: the catalog of a module\<close>

record asm_function =
  name :: string
  code :: string

text \<open>
  The loop over \<open>i\<close>, with \<open>currentFunction\<close> (name and start index, \<open>None\<close> for
  \<^verbatim>\<open>null\<close>) and the array \<open>functions\<close> as arguments; the code after the loop closes
  the last function.
\<close>

function list_loop ::
  "string list \<Rightarrow> nat \<Rightarrow> (string \<times> nat) option \<Rightarrow> asm_function list \<Rightarrow> asm_function list" where
  "list_loop lines i currentFunction functions =
     (if i < length lines then
        (let line = js_trim (lines ! i) in
         case match_glabel line of
           Some functionName \<Rightarrow>
             list_loop lines (i + 1) (Some (functionName, i))
               (case currentFunction of None \<Rightarrow> functions
                | Some (currentName, startIndex) \<Rightarrow>
                    functions @ [\<lparr>name = currentName,
                                  code = js_join [NL] (js_slice lines startIndex i)\<rparr>])
         | None \<Rightarrow>
            (case currentFunction of
               None \<Rightarrow> list_loop lines (i + 1) None functions
             | Some (currentName, startIndex) \<Rightarrow>
                 if match_size line = Some currentName
                 then list_loop lines (i + 1) None
                        (functions @ [\<lparr>name = currentName,
                                       code = js_join [NL] (js_slice lines startIndex (i + 1))\<rparr>])
                 else if js_includes line ''glabel''
                 then list_loop lines (i + 1)
                        (Some (case match_glabel line of Some n \<Rightarrow> n | None \<Rightarrow> [], i))
                        (functions @ [\<lparr>name = currentName,
                                       code = js_join [NL] (js_slice lines startIndex i)\<rparr>])
                 else list_loop lines (i + 1) currentFunction functions))
      else
        (case currentFunction of None \<Rightarrow> functions
         | Some (currentName, startIndex) \<Rightarrow>
             functions @ [\<lparr>name = currentName,
                           code = js_join [NL] (js_slice lines startIndex (length lines))\<rparr>]))"
  by pat_completeness auto
termination
  by (relation "measure (\<lambda>(lines, i, currentFunction, functions). length lines - i)") auto

definition listAssemblyFunctions :: "string \<Rightarrow> asm_function list" where
  "listAssemblyFunctions assemblyContent = list_loop (js_split NL assemblyContent) 0 None []"

section \<open>removeAssemblyFunction: the text written back\<close>

text \<open>\<^verbatim>\<open>s.replace(pat, '')\<close> for a string \<open>pat\<close>: the first occurrence is cut out.\<close>

fun js_remove_first :: "string \<Rightarrow> string \<Rightarrow> string" where
  "js_remove_first [] pat = []"
| "js_remove_first (c # cs) pat =
     (if prefix pat (c # cs) then drop (length pat) (c # cs) else c # js_remove_first cs pat)"

text \<open>
  \<^verbatim>\<open>s.replace(/\n{3,}/g, '\n\n')\<close>: at each position, a greedy match of three or more
  line breaks is replaced and the scan goes on after it; else the character is kept.
\<close>

function collapse_breaks :: "string \<Rightarrow> string" where
  "collapse_breaks [] = []"
| "collapse_breaks (c # cs) =
     (if length (takeWhile (\<lambda>x. x = NL) (c # cs)) \<ge> 3
      then NL # NL # collapse_breaks (dropWhile (\<lambda>x. x = NL) (c # cs))
      else c # collapse_breaks cs)"
  by pat_completeness auto
termination
  by (relation "measure length") (auto simp: length_dropWhile_le less_Suc_eq_le split: if_splits)

datatype error = FunctionNotFound

text \<open>
  The function reads the module file, computes the new text and writes it back. The
  model is the computation between the two: from the text read to the text written,
  or the error thrown when the function is not found (an empty text is falsy).
\<close>

definition removeAssemblyFunction :: "string \<Rightarrow> string \<Rightarrow> error + string" where
  "removeAssemblyFunction assemblyFileContent functionName =
     (case extractAssemblyFunction assemblyFileContent functionName of
        None \<Rightarrow> Inl FunctionNotFound
      | Some functionCode \<Rightarrow>
          if functionCode = [] then Inl FunctionNotFound
          else (let updatedContent = js_remove_first assemblyFileContent functionCode;
                    cleanedContent = collapse_breaks updatedContent
                in Inr cleanedContent))"

text \<open>
  The whitespace rule in the specification's words: every maximal run of line breaks
  that is three or more long becomes a run of exactly two; shorter runs and every
  other character are kept.
\<close>

function cap_break_runs :: "string \<Rightarrow> string" where
  "cap_break_runs [] = []"
| "cap_break_runs (c # cs) =
     (if c = NL then
        (let run = takeWhile (\<lambda>x. x = NL) (c # cs) in
         (if length run \<ge> 3 then [NL, NL] else run)
           @ cap_break_runs (dropWhile (\<lambda>x. x = NL) (c # cs)))
      else c # cap_break_runs cs)"
  by pat_completeness auto
termination
  by (relation "measure length") (auto simp: length_dropWhile_le less_Suc_eq_le)

section \<open>Notions for the removal round trip\<close>









section \<open>Lemmas about the loops\<close>

declare scan_after_return.simps [simp del] scan_backward.simps [simp del]
  scan_lines.simps [simp del] list_loop.simps [simp del]

lemma list_all_slice:
  "list_all P (js_slice L a b) = (\<forall>k. a \<le> k \<and> k < b \<and> k < length L \<longrightarrow> P (L ! k))"
proof
  assume h: "list_all P (js_slice L a b)"
  show "\<forall>k. a \<le> k \<and> k < b \<and> k < length L \<longrightarrow> P (L ! k)"
  proof (intro allI impI)
    fix k assume k: "a \<le> k \<and> k < b \<and> k < length L"
    then have "k - a < length (js_slice L a b)" by (auto simp: js_slice_def)
    with h have "P (js_slice L a b ! (k - a))" by (simp add: list_all_length)
    moreover have "k - a < b - a" and "a + (k - a) = k" using k by auto
    ultimately show "P (L ! k)" using k by (simp add: js_slice_def)
  qed
next
  assume h: "\<forall>k. a \<le> k \<and> k < b \<and> k < length L \<longrightarrow> P (L ! k)"
  show "list_all P (js_slice L a b)"
    unfolding list_all_length
  proof (intro allI impI)
    fix n assume n: "n < length (js_slice L a b)"
    then have "a \<le> a + n \<and> a + n < b \<and> a + n < length L" by (auto simp: js_slice_def)
    with h have "P (L ! (a + n))" by blast
    moreover have "n < b - a" using n by (simp add: js_slice_def)
    ultimately show "P (js_slice L a b ! n)" using n by (simp add: js_slice_def)
  qed
qed

lemma list_all_take_nth:
  "list_all P (take s L) = (\<forall>k. k < s \<and> k < length L \<longrightarrow> P (L ! k))"
  using list_all_slice [of P L 0 s] by (simp add: js_slice_def)

lemma return_not_terminator:
  "js_startsWith p ''jr '' \<Longrightarrow> \<not> (js_startsWith p ''.size'' \<or> p = ''.align 3'')"
  by (cases p) (auto simp: js_startsWith_def)

lemma scan_after_return_keeps:
  "\<not> (js_startsWith p ''.size'' \<or> p = ''.align 3'') \<Longrightarrow> scan_after_return L p i k fe = fe"
proof (induction L p i k fe rule: scan_after_return.induct)
  case (1 lines prevLine i k functionEnd)
  then show ?case
    by (subst scan_after_return.simps) (simp add: Let_def)
qed

lemma scan_backward_step:
  "scan_backward L fs i j =
     (if fs \<le> j then
        if isTerminatorLine (L ! nat j) \<or> isReturnLine (L ! nat j) then j
        else scan_backward L fs i (j - 1)
      else - 1)"
  by (subst scan_backward.simps)
     (auto simp: Let_def isTerminatorLine_def isReturnLine_def
        scan_after_return_keeps return_not_terminator)

lemma scan_backward_range:
  "scan_backward L fs i j = - 1 \<or> (fs \<le> scan_backward L fs i j \<and> scan_backward L fs i j \<le> j)"
proof (induction L fs i j rule: scan_backward.induct)
  case (1 lines functionStart i j)
  show ?case
  proof (cases "functionStart \<le> j")
    case False
    then show ?thesis by (subst (1 2 3) scan_backward_step) simp
  next
    case True
    show ?thesis
    proof (cases "isTerminatorLine (lines ! nat j) \<or> isReturnLine (lines ! nat j)")
      case t: True
      with True show ?thesis by (subst (1 2 3) scan_backward_step) simp
    next
      case f: False
      then have a: "\<not> (js_startsWith (js_trim (lines ! nat j)) ''.size'' \<or> js_trim (lines ! nat j) = ''.align 3'')"
        and b: "\<not> js_startsWith (js_trim (lines ! nat j)) ''jr ''"
        by (auto simp: isTerminatorLine_def isReturnLine_def)
      have e: "scan_backward lines functionStart i j = scan_backward lines functionStart i (j - 1)"
        using True f by (subst scan_backward_step) simp
      from "1.IH"[OF True refl a b] show ?thesis unfolding e by auto
    qed
  qed
qed


lemma scan_lines_search:
  "i \<le> s \<Longrightarrow> s \<le> length L \<Longrightarrow>
   \<forall>k. i \<le> k \<and> k < s \<longrightarrow> \<not> isStartLine fn (L ! k) \<and> \<not> isLabelLine fn (L ! k) \<Longrightarrow>
   scan_lines L fn i (- 1) False = scan_lines L fn s (- 1) False"
proof (induction "s - i" arbitrary: i)
  case 0
  then show ?case by simp
next
  case (Suc n)
  then have i: "i < s" "i < length L" by auto
  with Suc.prems have no: "\<not> isStartLine fn (L ! i)" "\<not> isLabelLine fn (L ! i)" by auto
  have "scan_lines L fn i (- 1) False = scan_lines L fn (Suc i) (- 1) False"
    using i no by (subst scan_lines.simps) (simp add: isStartLine_def isLabelLine_def)
  also have "\<dots> = scan_lines L fn s (- 1) False"
    using Suc.hyps Suc.prems i by (intro Suc.hyps(1)) auto
  finally show ?case .
qed

lemma scan_lines_enter:
  "s < length L \<Longrightarrow> isStartLine fn (L ! s) \<or> isLabelLine fn (L ! s) \<Longrightarrow>
   scan_lines L fn s (- 1) False = scan_lines L fn (Suc s) (int s) True"
  by (subst scan_lines.simps) (auto simp: isStartLine_def isLabelLine_def Let_def)

lemma scan_lines_start:
  "startsAt L fn s \<Longrightarrow> scan_lines L fn 0 (- 1) False = scan_lines L fn (Suc s) (int s) True"
proof -
  assume h: "startsAt L fn s"
  then have "scan_lines L fn 0 (- 1) False = scan_lines L fn s (- 1) False"
    by (intro scan_lines_search) (auto simp: startsAt_def list_all_take_nth)
  with h show ?thesis by (simp add: startsAt_def scan_lines_enter)
qed

lemma scan_lines_open:
  "i \<le> m \<Longrightarrow> m \<le> length L \<Longrightarrow>
   \<forall>k. i \<le> k \<and> k < m \<longrightarrow> \<not> isSizeLine fn (L ! k) \<and> \<not> hasGlabel (L ! k) \<Longrightarrow>
   scan_lines L fn i fs True = scan_lines L fn m fs True"
proof (induction "m - i" arbitrary: i)
  case 0
  then show ?case by simp
next
  case (Suc n)
  then have i: "i < m" "i < length L" by auto
  with Suc.prems have no: "\<not> isSizeLine fn (L ! i)" "\<not> hasGlabel (L ! i)" by auto
  have "scan_lines L fn i fs True = scan_lines L fn (Suc i) fs True"
    using i no by (subst scan_lines.simps) (simp add: isSizeLine_def hasGlabel_def)
  also have "\<dots> = scan_lines L fn m fs True"
    using Suc.hyps Suc.prems i by (intro Suc.hyps(1)) auto
  finally show ?case .
qed

lemma scan_lines_size:
  "m < length L \<Longrightarrow> isSizeLine fn (L ! m) \<Longrightarrow> scan_lines L fn m fs True = (fs, int m)"
  by (subst scan_lines.simps) (simp add: isSizeLine_def)

lemma scan_lines_glabel:
  "m < length L \<Longrightarrow> \<not> isSizeLine fn (L ! m) \<Longrightarrow> hasGlabel (L ! m) \<Longrightarrow>
   scan_lines L fn m fs True =
     (fs, if scan_backward L fs (int m) (int m - 1) = - 1 then int m - 1
          else scan_backward L fs (int m) (int m - 1))"
  by (subst scan_lines.simps) (simp add: isSizeLine_def hasGlabel_def Let_def)

lemma scan_lines_end: "scan_lines L fn (length L) fs b = (fs, - 1)"
  by (subst scan_lines.simps) simp

lemma openUntil_nth:
  "openUntil L fn s i =
     (\<forall>k. Suc s \<le> k \<and> k < i \<and> k < length L \<longrightarrow> \<not> isSizeLine fn (L ! k) \<and> \<not> hasGlabel (L ! k))"
  by (simp add: openUntil_def list_all_slice)

lemma scan_lines_open_until:
  "s < i \<Longrightarrow> i \<le> length L \<Longrightarrow> openUntil L fn s i \<Longrightarrow>
   scan_lines L fn (Suc s) fs True = scan_lines L fn i fs True"
  by (intro scan_lines_open) (auto simp: openUntil_nth)


lemma resolve_size:
  assumes "startsAt L fn s" "s < m" "m < length L" "openUntil L fn s m" "isSizeLine fn (L ! m)"
  shows "resolveBoundary L fn = Some (int s, int m)"
proof -
  have "scan_lines L fn 0 (- 1) False = scan_lines L fn m (int s) True"
    using assms by (simp add: scan_lines_start scan_lines_open_until)
  then show ?thesis using assms by (simp add: resolveBoundary_def scan_lines_size)
qed

lemma resolve_glabel:
  assumes "startsAt L fn s" "s < m" "m < length L" "openUntil L fn s m"
    "\<not> isSizeLine fn (L ! m)" "hasGlabel (L ! m)"
  shows "resolveBoundary L fn =
     Some (int s, if scan_backward L (int s) (int m) (int m - 1) = - 1 then int m - 1
                  else scan_backward L (int s) (int m) (int m - 1))"
proof -
  have "scan_lines L fn 0 (- 1) False = scan_lines L fn m (int s) True"
    using assms by (simp add: scan_lines_start scan_lines_open_until)
  moreover have "scan_backward L (int s) (int m) (int m - 1) = - 1
      \<or> (int s \<le> scan_backward L (int s) (int m) (int m - 1))"
    using scan_backward_range [of L "int s" "int m" "int m - 1"] by auto
  ultimately show ?thesis using assms by (auto simp: resolveBoundary_def scan_lines_glabel)
qed

lemma resolve_exhausted:
  assumes "startsAt L fn s" "openUntil L fn s (length L)"
  shows "resolveBoundary L fn = None"
proof -
  have "s < length L" using assms by (simp add: startsAt_def)
  then have "scan_lines L fn 0 (- 1) False = scan_lines L fn (length L) (int s) True"
    using assms by (simp add: scan_lines_start scan_lines_open_until)
  then show ?thesis by (simp add: resolveBoundary_def scan_lines_end)
qed

lemma resolve_no_start:
  assumes "list_all (\<lambda>l. \<not> isStartLine fn l \<and> \<not> isLabelLine fn l) L"
  shows "resolveBoundary L fn = None"
proof -
  have "scan_lines L fn 0 (- 1) False = scan_lines L fn (length L) (- 1) False"
    using assms by (intro scan_lines_search) (auto simp: list_all_length)
  then show ?thesis by (simp add: resolveBoundary_def scan_lines_end)
qed

lemma first_end_marker:
  assumes "\<not> openUntil L fn s (length L)"
  obtains m where "s < m" "m < length L" "openUntil L fn s m"
    "isSizeLine fn (L ! m) \<or> hasGlabel (L ! m)"
proof -
  define Q where "Q k = (Suc s \<le> k \<and> k < length L \<and> (isSizeLine fn (L ! k) \<or> hasGlabel (L ! k)))" for k
  from assms obtain k where "Q k" by (auto simp: openUntil_nth Q_def)
  define m where "m = (LEAST k. Q k)"
  have qm: "Q m" unfolding m_def using \<open>Q k\<close> by (rule LeastI)
  have least: "\<And>j. j < m \<Longrightarrow> \<not> Q j" unfolding m_def by (rule not_less_Least)
  have ou: "openUntil L fn s m"
    unfolding openUntil_nth
  proof (intro allI impI)
    fix j assume "Suc s \<le> j \<and> j < m \<and> j < length L"
    with least [of j] show "\<not> isSizeLine fn (L ! j) \<and> \<not> hasGlabel (L ! j)" by (auto simp: Q_def)
  qed
  show thesis by (rule that [of m]) (use qm ou in \<open>auto simp: Q_def\<close>)
qed

lemma scan_lines_fst: "inF \<Longrightarrow> fst (scan_lines L fn i fs inF) = fs"
proof (induction L fn i fs inF rule: scan_lines.induct)
  case (1 lines functionName i functionStart inFunction)
  then show ?case
    by (subst scan_lines.simps) (auto simp: Let_def)
qed

lemma scan_backward_found:
  assumes "fs \<le> j0" "j0 \<le> j" "0 \<le> fs"
    "isTerminatorLine (L ! nat j0) \<or> isReturnLine (L ! nat j0)"
    "\<forall>k. nat j0 < k \<and> k \<le> nat j \<longrightarrow> \<not> isTerminatorLine (L ! k) \<and> \<not> isReturnLine (L ! k)"
  shows "scan_backward L fs i j = j0"
  using assms
proof (induction "nat (j - j0)" arbitrary: j)
  case 0
  then have "j = j0" by simp
  with 0 show ?case by (subst scan_backward_step) simp
next
  case (Suc n)
  then have lt: "j0 < j" by linarith
  with Suc.prems have "nat j0 < nat j \<and> nat j \<le> nat j" by linarith
  with Suc.prems(5) have no: "\<not> isTerminatorLine (L ! nat j) \<and> \<not> isReturnLine (L ! nat j)" by blast
  have "scan_backward L fs i j = scan_backward L fs i (j - 1)"
    using Suc.prems lt no by (subst scan_backward_step) simp
  also have "\<dots> = j0"
  proof (rule Suc.hyps(1))
    show "n = nat (j - 1 - j0)" using Suc.hyps(2) by linarith
    show "j0 \<le> j - 1" using lt by simp
    show "\<forall>k. nat j0 < k \<and> k \<le> nat (j - 1) \<longrightarrow> \<not> isTerminatorLine (L ! k) \<and> \<not> isReturnLine (L ! k)"
    proof (intro allI impI)
      fix k assume "nat j0 < k \<and> k \<le> nat (j - 1)"
      then have "nat j0 < k \<and> k \<le> nat j" by linarith
      with Suc.prems(5) show "\<not> isTerminatorLine (L ! k) \<and> \<not> isReturnLine (L ! k)" by blast
    qed
    show "fs \<le> j0" "0 \<le> fs" "isTerminatorLine (L ! nat j0) \<or> isReturnLine (L ! nat j0)"
      using Suc.prems by simp_all
  qed
  finally show ?case .
qed

lemma js_includes_sublist: "js_includes s p = sublist p s"
  by (induction s) (auto simp: sublist_Cons_right)

lemma sublist_dropWhile:
  assumes "sublist p s" "p \<noteq> []" "\<not> P (hd p)"
  shows "sublist p (dropWhile P s)"
proof -
  from assms obtain a b where s: "s = a @ p @ b" by (auto simp: sublist_def)
  show ?thesis
  proof (cases "\<forall>x\<in>set a. P x")
    case True
    then have "dropWhile P s = dropWhile P (p @ b)" by (simp add: s dropWhile_append)
    also have "\<dots> = p @ b" using assms by (cases p) auto
    finally show ?thesis by (simp add: sublist_def) blast
  next
    case False
    then have "dropWhile P s = dropWhile P a @ p @ b" by (auto simp: s dropWhile_append)
    then show ?thesis by (auto simp: sublist_def)
  qed
qed

lemma js_includes_trim:
  assumes "p \<noteq> []" "\<not> is_space (hd p)" "\<not> is_space (last p)"
  shows "js_includes (js_trim s) p = js_includes s p"
proof
  assume "js_includes (js_trim s) p"
  then have "sublist (rev p) (dropWhile is_space (rev (dropWhile is_space s)))"
    by (simp add: js_includes_sublist js_trim_def sublist_rev_left)
  then have "sublist (rev p) (rev (dropWhile is_space s))"
    by (meson sublist_order.order_trans suffix_dropWhile suffix_imp_sublist)
  then have "sublist p (dropWhile is_space s)" by (simp add: sublist_rev)
  then show "js_includes s p"
    unfolding js_includes_sublist
    by (meson sublist_order.order_trans suffix_dropWhile suffix_imp_sublist)
next
  assume "js_includes s p"
  then have "sublist p (dropWhile is_space s)"
    using assms by (simp add: js_includes_sublist sublist_dropWhile)
  then have "sublist (rev p) (rev (dropWhile is_space s))" by (simp add: sublist_rev)
  then have "sublist (rev p) (dropWhile is_space (rev (dropWhile is_space s)))"
    using assms by (intro sublist_dropWhile) (auto simp: hd_rev)
  then show "js_includes (js_trim s) p"
    by (simp add: js_includes_sublist js_trim_def sublist_rev_left)
qed

lemma hasGlabel_raw: "hasGlabel l = js_includes l ''glabel''"
  unfolding hasGlabel_def by (rule js_includes_trim) (simp_all add: is_space_def)

section \<open>Lemmas about the regular expression matches\<close>

lemma first_match_Some:
  "first_match m t = Some n \<Longrightarrow> \<exists>pre suf. t = pre @ suf \<and> m suf = Some n"
proof (induction t)
  case Nil
  then show ?case by simp
next
  case (Cons c cs)
  show ?case
  proof (cases "m (c # cs)")
    case None
    with Cons obtain pre suf where "cs = pre @ suf" "m suf = Some n" by auto
    then have "c # cs = (c # pre) @ suf \<and> m suf = Some n" by simp
    then show ?thesis by blast
  next
    case (Some w)
    with Cons.prems have "c # cs = [] @ (c # cs) \<and> m (c # cs) = Some n" by simp
    then show ?thesis by blast
  qed
qed

lemma word_at_Some:
  "word_at s = Some n \<Longrightarrow> n \<noteq> [] \<and> list_all is_word n \<and> (\<exists>post. s = n @ post)"
proof -
  assume "word_at s = Some n"
  then have n: "n = takeWhile is_word s" "n \<noteq> []"
    by (auto simp: word_at_def Let_def split: if_splits)
  have "s = n @ dropWhile is_word s" by (simp add: n)
  moreover have "list_all is_word n" unfolding n list_all_iff by (auto dest: set_takeWhileD)
  ultimately show ?thesis using n by blast
qed

lemma greedy_eq_word_Some:
  "greedy_eq_word d = Some n \<Longrightarrow>
   n \<noteq> [] \<and> list_all is_word n \<and> (\<exists>mid post. d = mid @ ''='' @ n @ post)"
proof (induction d)
  case Nil
  then show ?case by simp
next
  case (Cons c cs)
  show ?case
  proof (cases "greedy_eq_word cs")
    case None
    with Cons.prems have c: "c = CHR ''=''" and w: "word_at cs = Some n"
      by (auto split: if_splits)
    from word_at_Some [OF w] obtain post where "n \<noteq> []" "list_all is_word n" "cs = n @ post"
      by blast
    then have "c # cs = [] @ ''='' @ n @ post" using c by simp
    with \<open>n \<noteq> []\<close> \<open>list_all is_word n\<close> show ?thesis by blast
  next
    case (Some w)
    with Cons.prems have "greedy_eq_word cs = Some n" by simp
    from Cons.IH [OF this] obtain mid post where
      "n \<noteq> []" "list_all is_word n" "cs = mid @ ''='' @ n @ post" by blast
    then have "c # cs = (c # mid) @ ''='' @ n @ post" by simp
    with \<open>n \<noteq> []\<close> \<open>list_all is_word n\<close> show ?thesis by blast
  qed
qed

lemma after_keyword_Some:
  assumes "after_keyword kw s = Some n"
  shows "n \<noteq> [] \<and> list_all is_word n \<and> (\<exists>mid post. s = kw @ mid @ ''='' @ n @ post)"
proof -
  from assms obtain r where s: "s = kw @ r" and g: "greedy_eq_word (takeWhile is_dot r) = Some n"
    by (auto simp: after_keyword_def strip_prefix_def prefix_def split: if_splits)
  from greedy_eq_word_Some [OF g] obtain mid post where
    n: "n \<noteq> []" "list_all is_word n" and d: "takeWhile is_dot r = mid @ ''='' @ n @ post" by blast
  have "r = takeWhile is_dot r @ dropWhile is_dot r" by simp
  then have "s = kw @ mid @ ''='' @ n @ (post @ dropWhile is_dot r)"
    unfolding s d by simp
  with n show ?thesis by blast
qed

lemma at_direct_Some:
  assumes "at_direct s = Some n"
  shows "\<exists>kw mid post. kw \<in> {''la'', ''add'', ''move''} \<and> n \<noteq> [] \<and> list_all is_word n
           \<and> s = kw @ mid @ ''='' @ n @ post"
proof -
  from assms have "after_keyword ''la'' s = Some n \<or> after_keyword ''add'' s = Some n
      \<or> after_keyword ''move'' s = Some n"
    by (auto simp: at_direct_def split: option.splits)
  then show ?thesis
    using after_keyword_Some [of "''la''" s n] after_keyword_Some [of "''add''" s n]
      after_keyword_Some [of "''move''" s n]
    by (elim disjE) blast+
qed

lemma match_direct_Some:
  assumes "match_direct t = Some n"
  shows "\<exists>pre kw mid post. kw \<in> {''la'', ''add'', ''move''} \<and> n \<noteq> [] \<and> list_all is_word n
           \<and> t = pre @ kw @ mid @ ''='' @ n @ post"
proof -
  from assms obtain pre suf where t: "t = pre @ suf" and a: "at_direct suf = Some n"
    unfolding match_direct_def by (blast dest: first_match_Some)
  from at_direct_Some [OF a] obtain kw mid post where
    "kw \<in> {''la'', ''add'', ''move''}" "n \<noteq> []" "list_all is_word n"
    "suf = kw @ mid @ ''='' @ n @ post" by blast
  with t show ?thesis by blast
qed


section \<open>Lemmas about the collapse of line breaks\<close>

declare collapse_breaks.simps [simp del] cap_break_runs.simps [simp del]

lemma collapse_breaks_long:
  "3 \<le> length (takeWhile (\<lambda>x. x = NL) (c # cs)) \<Longrightarrow>
   collapse_breaks (c # cs) = NL # NL # collapse_breaks (dropWhile (\<lambda>x. x = NL) (c # cs))"
  by (subst collapse_breaks.simps) simp

lemma collapse_breaks_short:
  "\<not> 3 \<le> length (takeWhile (\<lambda>x. x = NL) (c # cs)) \<Longrightarrow>
   collapse_breaks (c # cs) = c # collapse_breaks cs"
  by (subst collapse_breaks.simps) simp

lemma collapse_breaks_Nil: "collapse_breaks [] = []"
  by (simp add: collapse_breaks.simps)

lemma takeWhile_dropWhile_Nil: "takeWhile P (dropWhile P xs) = []"
  by (induction xs) auto

lemma collapse_breaks_head_run:
  "takeWhile (\<lambda>x. x = NL) (collapse_breaks s) =
     (if 3 \<le> length (takeWhile (\<lambda>x. x = NL) s) then [NL, NL] else takeWhile (\<lambda>x. x = NL) s)"
proof (induction s rule: collapse_breaks.induct)
  case 1
  show ?case by (simp add: collapse_breaks_Nil)
next
  case (2 c cs)
  show ?case
  proof (cases "3 \<le> length (takeWhile (\<lambda>x. x = NL) (c # cs))")
    case True
    let ?r = "dropWhile (\<lambda>x. x = NL) (c # cs)"
    have "takeWhile (\<lambda>x. x = NL) ?r = []" by (rule takeWhile_dropWhile_Nil)
    with "2.IH"(1) [OF True] have e: "takeWhile (\<lambda>x. x = NL) (collapse_breaks ?r) = []" by simp
    have "takeWhile (\<lambda>x. x = NL) (NL # NL # X) = NL # NL # takeWhile (\<lambda>x. x = NL) X" for X by simp
    then have "takeWhile (\<lambda>x. x = NL) (NL # NL # collapse_breaks ?r) = [NL, NL]" using e by simp
    with True show ?thesis by (simp only: collapse_breaks_long if_True)
  next
    case False
    with "2.IH"(2) [OF False] show ?thesis
      by (auto simp: collapse_breaks_short split: if_splits)
  qed
qed


lemma prefix3_head_run:
  "prefix [NL, NL, NL] t \<Longrightarrow> 3 \<le> length (takeWhile (\<lambda>x. x = NL) t)"
  by (auto simp: prefix_def)

lemma collapse_breaks_no_prefix3: "\<not> prefix [NL, NL, NL] (collapse_breaks s)"
proof
  assume "prefix [NL, NL, NL] (collapse_breaks s)"
  then have "3 \<le> length (takeWhile (\<lambda>x. x = NL) (collapse_breaks s))" by (rule prefix3_head_run)
  then show False by (simp add: collapse_breaks_head_run split: if_splits)
qed

lemma collapse_breaks_no_triple: "\<not> sublist [NL, NL, NL] (collapse_breaks s)"
proof (induction s rule: collapse_breaks.induct)
  case 1
  show ?case by (simp add: collapse_breaks_Nil)
next
  case (2 c cs)
  show ?case
  proof (cases "3 \<le> length (takeWhile (\<lambda>x. x = NL) (c # cs))")
    case True
    let ?X = "collapse_breaks (dropWhile (\<lambda>x. x = NL) (c # cs))"
    have e: "collapse_breaks (c # cs) = NL # NL # ?X" using True by (rule collapse_breaks_long)
    have a: "\<not> prefix [NL, NL, NL] (NL # NL # ?X)"
      using collapse_breaks_no_prefix3 [of "c # cs"] unfolding e .
    have x: "\<not> prefix [NL, NL, NL] ?X" by (rule collapse_breaks_no_prefix3)
    have hx: "takeWhile (\<lambda>x. x = NL) ?X = []"
      by (simp add: collapse_breaks_head_run takeWhile_dropWhile_Nil del: dropWhile.simps)
    have b: "\<not> prefix [NL, NL, NL] (NL # ?X)"
    proof
      assume "prefix [NL, NL, NL] (NL # ?X)"
      then have "3 \<le> length (takeWhile (\<lambda>x. x = NL) (NL # ?X))" by (rule prefix3_head_run)
      then show False using hx by simp
    qed
    from "2.IH"(1) [OF True] a b show ?thesis
      unfolding e by (simp only: sublist_Cons_right) simp
  next
    case False
    have e: "collapse_breaks (c # cs) = c # collapse_breaks cs"
      using False by (rule collapse_breaks_short)
    from "2.IH"(2) [OF False] collapse_breaks_no_prefix3 [of "c # cs"] show ?thesis
      unfolding e by (simp only: sublist_Cons_right) simp
  qed
qed

lemma cap_break_runs_Nil: "cap_break_runs [] = []"
  by (simp add: cap_break_runs.simps)

lemma cap_break_runs_other: "c \<noteq> NL \<Longrightarrow> cap_break_runs (c # cs) = c # cap_break_runs cs"
  by (subst cap_break_runs.simps) simp

lemma cap_break_runs_break:
  "cap_break_runs (NL # cs) =
     (if 3 \<le> length (takeWhile (\<lambda>x. x = NL) (NL # cs)) then [NL, NL] else takeWhile (\<lambda>x. x = NL) (NL # cs))
       @ cap_break_runs (dropWhile (\<lambda>x. x = NL) (NL # cs))"
  by (subst cap_break_runs.simps) (simp add: Let_def)

lemma cap_break_runs_short:
  assumes "\<not> 3 \<le> length (takeWhile (\<lambda>x. x = NL) (NL # cs))"
  shows "cap_break_runs (NL # cs) = NL # cap_break_runs cs"
proof (cases cs)
  case Nil
  then show ?thesis by (simp add: cap_break_runs_break cap_break_runs_Nil)
next
  case (Cons d ds)
  show ?thesis
  proof (cases "d = NL")
    case True
    have s: "\<not> 3 \<le> length (takeWhile (\<lambda>x. x = NL) (NL # ds))" using assms Cons True by simp
    have "cap_break_runs (NL # cs) = NL # takeWhile (\<lambda>x. x = NL) (NL # ds) @ cap_break_runs (dropWhile (\<lambda>x. x = NL) (NL # ds))"
      using assms Cons True by (subst cap_break_runs_break) simp
    also have "\<dots> = NL # cap_break_runs (NL # ds)"
    proof -
      have "cap_break_runs (NL # ds) =
          takeWhile (\<lambda>x. x = NL) (NL # ds) @ cap_break_runs (dropWhile (\<lambda>x. x = NL) (NL # ds))"
        using s by (subst cap_break_runs_break) simp
      then show ?thesis by simp
    qed
    finally show ?thesis using Cons True by simp
  next
    case False
    then show ?thesis using Cons by (subst cap_break_runs_break) simp
  qed
qed

lemma cap_break_runs_long:
  assumes "3 \<le> length (takeWhile (\<lambda>x. x = NL) (c # cs))"
  shows "cap_break_runs (c # cs) = NL # NL # cap_break_runs (dropWhile (\<lambda>x. x = NL) (c # cs))"
proof -
  have c: "c = NL" using assms by (auto split: if_splits)
  show ?thesis using assms unfolding c by (subst cap_break_runs_break) simp
qed

lemma collapse_breaks_cap: "collapse_breaks s = cap_break_runs s"
proof (induction s rule: collapse_breaks.induct)
  case 1
  show ?case by (simp add: collapse_breaks_Nil cap_break_runs_Nil)
next
  case (2 c cs)
  show ?case
  proof (cases "3 \<le> length (takeWhile (\<lambda>x. x = NL) (c # cs))")
    case True
    with "2.IH"(1) show ?thesis
      by (simp only: collapse_breaks_long cap_break_runs_long)
  next
    case False
    have "cap_break_runs (c # cs) = c # cap_break_runs cs"
    proof (cases "c = NL")
      case True
      with False cap_break_runs_short [of cs] show ?thesis by simp
    next
      case False
      then show ?thesis by (rule cap_break_runs_other)
    qed
    moreover have "collapse_breaks (c # cs) = c # collapse_breaks cs"
      using False by (rule collapse_breaks_short)
    ultimately show ?thesis using "2.IH"(2) [OF False] by simp
  qed
qed

section \<open>Lemmas about the catalog loop and the removal\<close>













































































section \<open>The claims about extractAssemblyFunction\<close>

text \<open>
  Claim C1, as amended. When line \<open>s\<close> is the start line the main loop finds, an end
  is resolved exactly when some later line contains \<^verbatim>\<open>.size <functionName>\<close> or
  \<^verbatim>\<open>glabel\<close>: then the range is \<open>[s, e]\<close> with \<open>s \<le> e\<close> inside the buffer.
  When the buffer ends with neither, the result is \<^verbatim>\<open>null\<close> although the start
  was found.
\<close>
theorem C1_end_resolved_iff_marker_follows:
  assumes "startsAt L fn s"
  shows "case resolveBoundary L fn of
           None \<Rightarrow> openUntil L fn s (length L)
         | Some (a, e) \<Rightarrow> \<not> openUntil L fn s (length L) \<and> a = int s \<and> int s \<le> e \<and> e < int (length L)"
proof (cases "openUntil L fn s (length L)")
  case True
  with assms show ?thesis by (simp add: resolve_exhausted)
next
  case False
  then obtain m where m: "s < m" "m < length L" "openUntil L fn s m"
    "isSizeLine fn (L ! m) \<or> hasGlabel (L ! m)" by (rule first_end_marker)
  show ?thesis
  proof (cases "isSizeLine fn (L ! m)")
    case True
    with assms m False show ?thesis by (simp add: resolve_size)
  next
    case nosize: False
    let ?b = "scan_backward L (int s) (int m) (int m - 1)"
    have "?b = - 1 \<or> (int s \<le> ?b \<and> ?b \<le> int m - 1)" by (rule scan_backward_range)
    with assms m False nosize show ?thesis by (auto simp: resolve_glabel)
  qed
qed

text \<open>The theorem of C1 at a buffer where the next function starts at line 2.\<close>
theorem C1_witness:
  "startsAt [''glabel f'', ''nop'', ''glabel g''] ''f'' 0
   \<and> resolveBoundary [''glabel f'', ''nop'', ''glabel g''] ''f'' = Some (0, 1)
   \<and> \<not> openUntil [''glabel f'', ''nop'', ''glabel g''] ''f'' 0
         (length [''glabel f'', ''nop'', ''glabel g''])"
proof -
  have h: "startsAt [''glabel f'', ''nop'', ''glabel g''] ''f'' 0" by code_simp
  have r: "resolveBoundary [''glabel f'', ''nop'', ''glabel g''] ''f'' = Some (0, 1)" by code_simp
  from C1_end_resolved_iff_marker_follows [OF h] r
  have "\<not> openUntil [''glabel f'', ''nop'', ''glabel g''] ''f'' 0
         (length [''glabel f'', ''nop'', ''glabel g''])" by simp
  with h r show ?thesis by simp
qed

text \<open>
  C1 as stated fails: the start \<^verbatim>\<open>glabel f\<close> is found at line 0, the buffer ends
  without a size marker or another \<^verbatim>\<open>glabel\<close>, and the result is \<^verbatim>\<open>null\<close>.
\<close>
theorem C1_counterexample:
  "startsAt (js_split NL ''glabel f\<newline>nop'') ''f'' 0
   \<and> extractAssemblyFunction ''glabel f\<newline>nop'' ''f'' = None"
  by code_simp

text \<open>
  Claim C2, as amended. The start is the first line that contains
  \<^verbatim>\<open>glabel <functionName>\<close> or begins with \<^verbatim>\<open><functionName>:\<close>, whichever
  comes first in the buffer; a label line is passed over only when a start marker
  line comes before it.
\<close>
theorem C2_start_is_first_marker_or_label:
  assumes "startsAt L fn s"
  shows "fst (scan_lines L fn 0 (- 1) False) = int s
       \<and> (case resolveBoundary L fn of None \<Rightarrow> True | Some (a, e) \<Rightarrow> a = int s)"
proof -
  have "fst (scan_lines L fn 0 (- 1) False) = int s"
    using assms by (simp add: scan_lines_start scan_lines_fst)
  then show ?thesis
    by (auto simp: resolveBoundary_def split: prod.splits)
qed

text \<open>The theorem of C2 at a buffer whose label line comes before its start marker.\<close>
theorem C2_witness:
  "startsAt [''f:'', ''nop'', ''glabel f'', ''.size f''] ''f'' 0
   \<and> fst (scan_lines [''f:'', ''nop'', ''glabel f'', ''.size f''] ''f'' 0 (- 1) False) = 0"
proof -
  have h: "startsAt [''f:'', ''nop'', ''glabel f'', ''.size f''] ''f'' 0" by code_simp
  from C2_start_is_first_marker_or_label [OF h] h show ?thesis by simp
qed

text \<open>
  C2 as stated fails: line 2 is \<^verbatim>\<open>glabel f\<close>, and yet the label line 0 is the
  start, and the range ends before the start marker.
\<close>
theorem C2_counterexample:
  "isStartLine ''f'' ([''f:'', ''nop'', ''glabel f'', ''.size f''] ! 2)
   \<and> resolveBoundary [''f:'', ''nop'', ''glabel f'', ''.size f''] ''f'' = Some (0, 1)
   \<and> extractAssemblyFunction ''f:\<newline>nop\<newline>glabel f\<newline>.size f'' ''f'' = Some ''f:\<newline>nop''"
  by code_simp

text \<open>
  Claim C5, as amended. When line \<open>m\<close> after the start contains
  \<^verbatim>\<open>.size <functionName>\<close> and no line strictly between the start and \<open>m\<close>
  contains that or \<^verbatim>\<open>glabel\<close>, the range ends exactly at \<open>m\<close>.
\<close>
theorem C5_first_size_marker_is_end:
  assumes "startsAt L fn s" "s < m" "m < length L" "openUntil L fn s m" "isSizeLine fn (L ! m)"
  shows "resolveBoundary L fn = Some (int s, int m)"
  using assms by (rule resolve_size)

text \<open>The theorem of C5 at a function closed by its size marker at line 2.\<close>
theorem C5_witness:
  "startsAt [''glabel f'', ''nop'', ''.size f, .-f'', ''glabel g''] ''f'' 0
   \<and> openUntil [''glabel f'', ''nop'', ''.size f, .-f'', ''glabel g''] ''f'' 0 2
   \<and> isSizeLine ''f'' ([''glabel f'', ''nop'', ''.size f, .-f'', ''glabel g''] ! 2)
   \<and> resolveBoundary [''glabel f'', ''nop'', ''.size f, .-f'', ''glabel g''] ''f'' = Some (0, 2)"
proof -
  let ?L = "[''glabel f'', ''nop'', ''.size f, .-f'', ''glabel g'']"
  have h1: "startsAt ?L ''f'' 0" by code_simp
  have h2: "openUntil ?L ''f'' 0 2" by code_simp
  have h3: "isSizeLine ''f'' (?L ! 2)" by code_simp
  have "resolveBoundary ?L ''f'' = Some (int 0, int 2)"
    by (rule C5_first_size_marker_is_end [OF h1 _ _ h2 h3]) simp_all
  with h1 h2 h3 show ?thesis by simp
qed

text \<open>
  C5 as stated fails: line 2 is a size marker of \<open>f\<close> after the start, but line 1
  contains \<^verbatim>\<open>glabel\<close> and ends the range at line 0.
\<close>
theorem C5_counterexample:
  "startsAt [''glabel f'', ''glabel g'', ''.size f''] ''f'' 0
   \<and> isSizeLine ''f'' ([''glabel f'', ''glabel g'', ''.size f''] ! 2)
   \<and> resolveBoundary [''glabel f'', ''glabel g'', ''.size f''] ''f'' = Some (0, 0)"
  by code_simp

text \<open>
  Claim C4. The main loop is open since line \<open>s\<close> and reaches line \<open>i\<close>, which
  contains \<^verbatim>\<open>glabel\<close>. Line \<open>j\<close> is the first return line the backward search
  meets: no line between \<open>j\<close> and \<open>i\<close> is an align or size line or a return line.
  Then the forward scan after \<open>j\<close> leaves \<open>functionEnd\<close> at \<open>-1\<close>, the backward
  search yields \<open>j\<close>, and the resolved range ends at \<open>j\<close>.
\<close>
theorem C4_first_return_marker_is_end:
  assumes "startsAt L fn s" "s < i" "i < length L" "openUntil L fn s i"
    "\<not> isSizeLine fn (L ! i)" "hasGlabel (L ! i)"
    "s \<le> j" "j < i" "isReturnLine (L ! j)"
    "list_all (\<lambda>l. \<not> isTerminatorLine l \<and> \<not> isReturnLine l) (js_slice L (Suc j) i)"
  shows "scan_after_return L (js_trim (L ! j)) (int i) (int j + 1) (- 1) = - 1
       \<and> scan_backward L (int s) (int i) (int i - 1) = int j
       \<and> resolveBoundary L fn = Some (int s, int j)"
proof -
  have keep: "scan_after_return L (js_trim (L ! j)) (int i) (int j + 1) (- 1) = - 1"
    using assms(9) by (intro scan_after_return_keeps return_not_terminator) (simp add: isReturnLine_def)
  have "scan_backward L (int s) (int i) (int i - 1) = int j"
  proof (rule scan_backward_found)
    show "int s \<le> int j" "int j \<le> int i - 1" "0 \<le> int s" using assms by auto
    show "isTerminatorLine (L ! nat (int j)) \<or> isReturnLine (L ! nat (int j))"
      using assms(9) by simp
    show "\<forall>k. nat (int j) < k \<and> k \<le> nat (int i - 1) \<longrightarrow>
             \<not> isTerminatorLine (L ! k) \<and> \<not> isReturnLine (L ! k)"
    proof (intro allI impI)
      fix k assume "nat (int j) < k \<and> k \<le> nat (int i - 1)"
      then have "Suc j \<le> k \<and> k < i \<and> k < length L" using assms(2,3) by auto
      with assms(10) show "\<not> isTerminatorLine (L ! k) \<and> \<not> isReturnLine (L ! k)"
        unfolding list_all_slice by blast
    qed
  qed
  moreover from this have "resolveBoundary L fn = Some (int s, int j)"
    using assms resolve_glabel [of L fn s i] by simp
  ultimately show ?thesis using keep by simp
qed

text \<open>The theorem of C4 at a function whose return at line 1 is followed by a delay slot.\<close>
theorem C4_witness:
  "startsAt [''glabel f'', '' jr $ra'', '' nop'', '''', ''glabel g''] ''f'' 0
   \<and> openUntil [''glabel f'', '' jr $ra'', '' nop'', '''', ''glabel g''] ''f'' 0 4
   \<and> hasGlabel ([''glabel f'', '' jr $ra'', '' nop'', '''', ''glabel g''] ! 4)
   \<and> isReturnLine ([''glabel f'', '' jr $ra'', '' nop'', '''', ''glabel g''] ! 1)
   \<and> resolveBoundary [''glabel f'', '' jr $ra'', '' nop'', '''', ''glabel g''] ''f''
       = Some (int 0, int 1)"
proof -
  let ?L = "[''glabel f'', '' jr $ra'', '' nop'', '''', ''glabel g'']"
  have h1: "startsAt ?L ''f'' 0" by code_simp
  have h2: "openUntil ?L ''f'' 0 4" by code_simp
  have h3: "\<not> isSizeLine ''f'' (?L ! 4)" by code_simp
  have h4: "hasGlabel (?L ! 4)" by code_simp
  have h5: "isReturnLine (?L ! 1)" by code_simp
  have h6: "list_all (\<lambda>l. \<not> isTerminatorLine l \<and> \<not> isReturnLine l) (js_slice ?L (Suc 1) 4)"
    by code_simp
  have "resolveBoundary ?L ''f'' = Some (int 0, int 1)"
    using C4_first_return_marker_is_end [OF h1 _ _ h2 h3 h4 _ _ h5 h6] by simp
  with h1 h2 h4 h5 show ?thesis by blast
qed

text \<open>
  Claim C9, as amended. While the main loop is open, a line whose text contains
  \<^verbatim>\<open>glabel\<close> anywhere and that does not contain \<^verbatim>\<open>.size <functionName>\<close>
  (the test made first) ends the scan: the end is the result of the backward
  search, or the line before when that search finds nothing.
\<close>
theorem C9_glabel_substring_triggers_backward_search:
  assumes "startsAt L fn s" "s < i" "i < length L" "openUntil L fn s i"
    "js_includes (L ! i) ''glabel''" "\<not> isSizeLine fn (L ! i)"
  shows "resolveBoundary L fn =
     Some (int s, if scan_backward L (int s) (int i) (int i - 1) = - 1 then int i - 1
                  else scan_backward L (int s) (int i) (int i - 1))"
  using assms by (intro resolve_glabel) (simp_all add: hasGlabel_raw)

text \<open>
  The theorem of C9 at a comment line that contains \<^verbatim>\<open>glabel\<close> inside another
  word and is no start marker.
\<close>
theorem C9_witness:
  "startsAt [''glabel f'', '' nop'', ''  # see glabelled data'', ''.size f''] ''f'' 0
   \<and> openUntil [''glabel f'', '' nop'', ''  # see glabelled data'', ''.size f''] ''f'' 0 2
   \<and> js_includes ([''glabel f'', '' nop'', ''  # see glabelled data'', ''.size f''] ! 2) ''glabel''
   \<and> match_glabel (js_trim ([''glabel f'', '' nop'', ''  # see glabelled data'', ''.size f''] ! 2)) = None
   \<and> resolveBoundary [''glabel f'', '' nop'', ''  # see glabelled data'', ''.size f''] ''f''
       = Some (0, 1)"
proof -
  let ?L = "[''glabel f'', '' nop'', ''  # see glabelled data'', ''.size f'']"
  have h1: "startsAt ?L ''f'' 0" by code_simp
  have h2: "openUntil ?L ''f'' 0 2" by code_simp
  have h3: "js_includes (?L ! 2) ''glabel''" by code_simp
  have h4: "\<not> isSizeLine ''f'' (?L ! 2)" by code_simp
  have h5: "match_glabel (js_trim (?L ! 2)) = None" by code_simp
  have b: "scan_backward ?L (int 0) (int 2) (int 2 - 1) = - 1" by code_simp
  have "resolveBoundary ?L ''f'' = Some (0, 1)"
    using C9_glabel_substring_triggers_backward_search [OF h1 _ _ h2 h3 h4] b by simp
  with h1 h2 h3 h5 show ?thesis by blast
qed

text \<open>
  C9 as stated fails: line 3 contains \<^verbatim>\<open>glabel\<close> while the loop is open, but it
  also contains \<^verbatim>\<open>.size f\<close>, so the range ends at line 3 and not at line 1, where
  the backward search would end it.
\<close>
theorem C9_counterexample:
  "startsAt [''glabel f'', '' jr $ra'', '' nop'', ''.size f  # next: glabel g''] ''f'' 0
   \<and> openUntil [''glabel f'', '' jr $ra'', '' nop'', ''.size f  # next: glabel g''] ''f'' 0 3
   \<and> js_includes ([''glabel f'', '' jr $ra'', '' nop'', ''.size f  # next: glabel g''] ! 3) ''glabel''
   \<and> scan_backward [''glabel f'', '' jr $ra'', '' nop'', ''.size f  # next: glabel g''] 0 3 2 = 1
   \<and> resolveBoundary [''glabel f'', '' jr $ra'', '' nop'', ''.size f  # next: glabel g''] ''f''
       = Some (0, 3)"
  by code_simp

section \<open>The claim about extractFunctionCallsFromAssembly\<close>

text \<open>
  Claim C7, as amended. The generic matcher \<^verbatim>\<open>/(?:la|add|move).*=(\w+)/\<close> yields a
  name \<open>n\<close> only from a trimmed line in which \<^verbatim>\<open>la\<close>, \<^verbatim>\<open>add\<close> or \<^verbatim>\<open>move\<close>
  occurs somewhere (not only at its beginning) and \<^verbatim>\<open>=n\<close> occurs later; a line that
  contains none of the three yields no name through this matcher.
\<close>
theorem C7_generic_matcher_needs_keyword_anywhere:
  "(match_direct t = Some n \<longrightarrow>
      (\<exists>pre kw mid post. kw \<in> {''la'', ''add'', ''move''} \<and> n \<noteq> [] \<and> list_all is_word n
         \<and> t = pre @ kw @ mid @ ''='' @ n @ post))
   \<and> (\<not> js_includes t ''la'' \<and> \<not> js_includes t ''add'' \<and> \<not> js_includes t ''move''
        \<longrightarrow> match_direct t = None)"
proof (intro conjI impI)
  assume "match_direct t = Some n"
  then show "\<exists>pre kw mid post. kw \<in> {''la'', ''add'', ''move''} \<and> n \<noteq> [] \<and> list_all is_word n
         \<and> t = pre @ kw @ mid @ ''='' @ n @ post" by (rule match_direct_Some)
next
  assume no: "\<not> js_includes t ''la'' \<and> \<not> js_includes t ''add'' \<and> \<not> js_includes t ''move''"
  show "match_direct t = None"
  proof (rule ccontr)
    assume "match_direct t \<noteq> None"
    then obtain w where "match_direct t = Some w" by auto
    from match_direct_Some [OF this] obtain pre kw mid post where
      kw: "kw \<in> {''la'', ''add'', ''move''}" and t: "t = pre @ kw @ mid @ ''='' @ w @ post" by blast
    have "t = pre @ kw @ (mid @ ''='' @ w @ post)" using t by simp
    then have "sublist kw t" unfolding sublist_def by blast
    with kw no show False by (auto simp: js_includes_sublist)
  qed
qed

text \<open>The theorem of C7 at a load-address line and at a call line.\<close>
theorem C7_witness:
  "match_direct (js_trim ''  la $t0, =baz'') = Some ''baz''
   \<and> (\<exists>pre kw mid post. kw \<in> {''la'', ''add'', ''move''} \<and> ''baz'' \<noteq> [] \<and> list_all is_word ''baz''
         \<and> js_trim ''  la $t0, =baz'' = pre @ kw @ mid @ ''='' @ ''baz'' @ post)
   \<and> \<not> js_includes (js_trim '' jal foo'') ''la'' \<and> \<not> js_includes (js_trim '' jal foo'') ''add''
   \<and> \<not> js_includes (js_trim '' jal foo'') ''move''
   \<and> match_direct (js_trim '' jal foo'') = None"
proof -
  have m: "match_direct (js_trim ''  la $t0, =baz'') = Some ''baz''" by code_simp
  have n: "\<not> js_includes (js_trim '' jal foo'') ''la'' \<and> \<not> js_includes (js_trim '' jal foo'') ''add''
     \<and> \<not> js_includes (js_trim '' jal foo'') ''move''" by code_simp
  from C7_generic_matcher_needs_keyword_anywhere [of "js_trim ''  la $t0, =baz''" "''baz''"] m
  have a: "\<exists>pre kw mid post. kw \<in> {''la'', ''add'', ''move''} \<and> ''baz'' \<noteq> [] \<and> list_all is_word ''baz''
         \<and> js_trim ''  la $t0, =baz'' = pre @ kw @ mid @ ''='' @ ''baz'' @ post" by blast
  from C7_generic_matcher_needs_keyword_anywhere [of "js_trim '' jal foo''" "[]"] n
  have b: "match_direct (js_trim '' jal foo'') = None" by blast
  from m a n b show ?thesis by blast
qed

text \<open>
  C7 as stated fails: the line \<^verbatim>\<open>b label =foo\<close> begins with none of the three
  instructions, and the generic matcher (alone among the three matchers) adds
  \<^verbatim>\<open>foo\<close>, because \<^verbatim>\<open>la\<close> occurs inside \<^verbatim>\<open>label\<close>.
\<close>
theorem C7_counterexample:
  "match_direct (js_trim ''b label =foo'') = Some ''foo''
   \<and> \<not> js_startsWith (js_trim ''b label =foo'') ''la''
   \<and> \<not> js_startsWith (js_trim ''b label =foo'') ''add''
   \<and> \<not> js_startsWith (js_trim ''b label =foo'') ''move''
   \<and> match_jal (js_trim ''b label =foo'') = None
   \<and> match_ref (js_trim ''b label =foo'') = None
   \<and> extractFunctionCallsFromAssembly ''b label =foo'' = [''foo'']"
  by code_simp

section \<open>The claims about listAssemblyFunctions\<close>

text \<open>
  Claim C6, evaluated where the code departs from it. The line \<^verbatim>\<open>xsize f\<close> has
  no \<^verbatim>\<open>.size\<close> in it, yet the expression \<^verbatim>\<open>/.size\s+(\w+)/\<close> matches it (its dot
  stands for any character), and the open function \<open>f\<close> is closed at that line,
  inclusive; an ordinary line in its place leaves the function open to the end.
\<close>
theorem C6_size_regex_dot_matches_any_character:
  "listAssemblyFunctions ''glabel f\<newline>xsize f\<newline>nop''
     = [\<lparr>name = ''f'', code = ''glabel f\<newline>xsize f''\<rparr>]
   \<and> \<not> js_includes ''xsize f'' ''.size''
   \<and> match_size ''xsize f'' = Some ''f''
   \<and> listAssemblyFunctions ''glabel f\<newline>nop f\<newline>nop''
     = [\<lparr>name = ''f'', code = ''glabel f\<newline>nop f\<newline>nop''\<rparr>]"
  by code_simp

text \<open>One step of the catalog loop at a line with a malformed start marker.\<close>
lemma list_loop_bad_glabel:
  assumes "i < length L" "js_includes (js_trim (L ! i)) ''glabel''"
    "match_glabel (js_trim (L ! i)) = None" "match_size (js_trim (L ! i)) \<noteq> Some currentName"
  shows "list_loop L i (Some (currentName, startIndex)) fs =
     list_loop L (i + 1) (Some ([], i))
       (fs @ [\<lparr>name = currentName, code = js_join [NL] (js_slice L startIndex i)\<rparr>])"
  using assms by (subst list_loop.simps) (simp add: Let_def)

text \<open>
  Claim C10, as amended. While a function is open, a line that contains
  \<^verbatim>\<open>glabel\<close>, does not match \<^verbatim>\<open>/glabel\s+(\w+)/\<close> and is not matched by the size
  expression with the open function's name closes the open function with the lines
  up to \<open>i - 1\<close> and opens a function with the empty name at \<open>i\<close>. Some catalog
  therefore holds a record with the empty name.
\<close>
theorem C10_malformed_glabel_opens_unnamed_function:
  assumes "i < length L" "js_includes (L ! i) ''glabel''"
    "match_glabel (js_trim (L ! i)) = None" "match_size (js_trim (L ! i)) \<noteq> Some currentName"
  shows "list_loop L i (Some (currentName, startIndex)) fs =
     list_loop L (i + 1) (Some ([], i))
       (fs @ [\<lparr>name = currentName, code = js_join [NL] (js_slice L startIndex i)\<rparr>])
   \<and> (\<exists>assemblyContent. [] \<in> set (map name (listAssemblyFunctions assemblyContent)))"
proof -
  have "listAssemblyFunctions ''glabel f\<newline>glabel''
      = [\<lparr>name = ''f'', code = ''glabel f''\<rparr>, \<lparr>name = [], code = ''glabel''\<rparr>]"
    by code_simp
  then have "[] \<in> set (map name (listAssemblyFunctions ''glabel f\<newline>glabel''))" by simp
  then have "\<exists>assemblyContent. [] \<in> set (map name (listAssemblyFunctions assemblyContent))" ..
  moreover have "js_includes (js_trim (L ! i)) ''glabel''"
    using assms(2) hasGlabel_raw [of "L ! i"] by (simp add: hasGlabel_def)
  ultimately show ?thesis using assms list_loop_bad_glabel by blast
qed

text \<open>The theorem of C10 at a bare \<^verbatim>\<open>glabel\<close> line inside the function \<open>f\<close>.\<close>
theorem C10_witness:
  "js_includes ([''glabel f'', '' nop'', ''glabel'', '' nop''] ! 2) ''glabel''
   \<and> match_glabel (js_trim ([''glabel f'', '' nop'', ''glabel'', '' nop''] ! 2)) = None
   \<and> match_size (js_trim ([''glabel f'', '' nop'', ''glabel'', '' nop''] ! 2)) \<noteq> Some ''f''
   \<and> list_loop [''glabel f'', '' nop'', ''glabel'', '' nop''] 2 (Some (''f'', 0)) [] =
       list_loop [''glabel f'', '' nop'', ''glabel'', '' nop''] (2 + 1) (Some ([], 2))
         ([] @ [\<lparr>name = ''f'',
                  code = js_join [NL] (js_slice [''glabel f'', '' nop'', ''glabel'', '' nop''] 0 2)\<rparr>])
   \<and> listAssemblyFunctions ''glabel f\<newline> nop\<newline>glabel\<newline> nop''
       = [\<lparr>name = ''f'', code = ''glabel f\<newline> nop''\<rparr>, \<lparr>name = [], code = ''glabel\<newline> nop''\<rparr>]"
proof -
  let ?L = "[''glabel f'', '' nop'', ''glabel'', '' nop'']"
  have h2: "js_includes (?L ! 2) ''glabel''" by code_simp
  have h3: "match_glabel (js_trim (?L ! 2)) = None" by code_simp
  have h4: "match_size (js_trim (?L ! 2)) \<noteq> Some ''f''" by code_simp
  have e: "listAssemblyFunctions ''glabel f\<newline> nop\<newline>glabel\<newline> nop''
       = [\<lparr>name = ''f'', code = ''glabel f\<newline> nop''\<rparr>, \<lparr>name = [], code = ''glabel\<newline> nop''\<rparr>]"
    by code_simp
  have "list_loop ?L 2 (Some (''f'', 0)) [] =
       list_loop ?L (2 + 1) (Some ([], 2))
         ([] @ [\<lparr>name = ''f'', code = js_join [NL] (js_slice ?L 0 2)\<rparr>])"
    using C10_malformed_glabel_opens_unnamed_function [OF _ h2 h3 h4, of 0 "[]"] by simp
  with h2 h3 h4 e show ?thesis by blast
qed

text \<open>
  C10 as stated fails: line 1 contains \<^verbatim>\<open>glabel\<close> and is no start marker, but it is
  the size marker of the open function, which is closed at line 1 inclusive; no
  function with the empty name is opened.
\<close>
theorem C10_counterexample:
  "js_includes ([''glabel f'', ''.size f  # glabel'', '' nop''] ! 1) ''glabel''
   \<and> match_glabel (js_trim ([''glabel f'', ''.size f  # glabel'', '' nop''] ! 1)) = None
   \<and> list_loop [''glabel f'', ''.size f  # glabel'', '' nop''] 1 (Some (''f'', 0)) []
       = [\<lparr>name = ''f'', code = ''glabel f\<newline>.size f  # glabel''\<rparr>]
   \<and> listAssemblyFunctions ''glabel f\<newline>.size f  # glabel\<newline> nop''
       = [\<lparr>name = ''f'', code = ''glabel f\<newline>.size f  # glabel''\<rparr>]"
  by code_simp

section \<open>The claim about removeAssemblyFunction\<close>

text \<open>
  Claim C8, as amended. When the removal succeeds, the text written back contains no
  three consecutive line feed characters, and it is the text after the removal with
  every maximal run of three or more line feeds replaced by exactly two.
\<close>
theorem C8_no_run_of_three_line_breaks:
  assumes "removeAssemblyFunction assemblyFileContent functionName = Inr cleanedContent"
  shows "\<not> js_includes cleanedContent [NL, NL, NL]
       \<and> (\<exists>functionCode.
            extractAssemblyFunction assemblyFileContent functionName = Some functionCode
            \<and> cleanedContent = cap_break_runs (js_remove_first assemblyFileContent functionCode))"
proof -
  from assms obtain functionCode where
    f: "extractAssemblyFunction assemblyFileContent functionName = Some functionCode" and
    c: "cleanedContent = collapse_breaks (js_remove_first assemblyFileContent functionCode)"
    by (auto simp: removeAssemblyFunction_def Let_def split: option.splits if_splits)
  have "\<not> js_includes cleanedContent [NL, NL, NL]"
    unfolding c js_includes_sublist by (rule collapse_breaks_no_triple)
  moreover have "cleanedContent = cap_break_runs (js_remove_first assemblyFileContent functionCode)"
    unfolding c by (rule collapse_breaks_cap)
  ultimately show ?thesis using f by blast
qed

text \<open>The theorem of C8 at a module where the removal leaves four line feeds in a row.\<close>
theorem C8_witness:
  "removeAssemblyFunction ''a\<newline>\<newline>glabel f\<newline>.size f\<newline>\<newline>b'' ''f'' = Inr ''a\<newline>\<newline>b''
   \<and> js_remove_first ''a\<newline>\<newline>glabel f\<newline>.size f\<newline>\<newline>b'' ''glabel f\<newline>.size f''
       = ''a\<newline>\<newline>\<newline>\<newline>b''
   \<and> \<not> js_includes ''a\<newline>\<newline>b'' [NL, NL, NL]"
proof -
  have r: "removeAssemblyFunction ''a\<newline>\<newline>glabel f\<newline>.size f\<newline>\<newline>b'' ''f'' = Inr ''a\<newline>\<newline>b''"
    by code_simp
  have s: "js_remove_first ''a\<newline>\<newline>glabel f\<newline>.size f\<newline>\<newline>b'' ''glabel f\<newline>.size f''
       = ''a\<newline>\<newline>\<newline>\<newline>b''" by code_simp
  from C8_no_run_of_three_line_breaks [OF r] have "\<not> js_includes ''a\<newline>\<newline>b'' [NL, NL, NL]" by blast
  with r s show ?thesis by blast
qed

text \<open>
  C8 as stated fails for a module whose lines end in carriage return and line feed:
  after the removal of \<open>f\<close> the text written back still holds three such line
  breaks in a row, since only runs of the line feed character are collapsed.
\<close>
theorem C8_counterexample:
  "removeAssemblyFunction
     (js_join [CR, NL] [''glabel f'', ''.size f'', [], [], [], ''b'']) ''f''
     = Inr (NL # js_join [CR, NL] [[], [], [], ''b''])
   \<and> js_includes (NL # js_join [CR, NL] [[], [], [], ''b'']) [CR, NL, CR, NL, CR, NL]"
  by code_simp

section \<open>The claim about removal and re-cataloging\<close>




end
